theory Spec2Isabelle
  imports Main
begin

section \<open>The time budget of the actor (\<open>.actor/main.js\<close>)\<close>

text \<open>
  The actor keeps one wall-clock budget for the whole run:
  \<^verbatim>\<open>
  const START_TIME = Date.now();
  const TIMEOUT_MS = 270_000;
  function elapsed() { return Date.now() - START_TIME; }
  function remaining() { return TIMEOUT_MS - elapsed(); }
  function timeOk(neededMs = 0) { return remaining() > neededMs; }
  \<close>
  \<open>Date.now()\<close> is a whole number of milliseconds, far below \<open>2^53\<close>, so JavaScript's
  numbers behave as mathematical integers here. Every function that reads the clock takes
  the reading as an argument: \<open>start\<close> is \<open>START_TIME\<close>, \<open>now\<close> is the value of
  \<open>Date.now()\<close> at the call.
\<close>

definition TIMEOUT_MS :: int where
  "TIMEOUT_MS = 270000"

definition elapsed :: "int \<Rightarrow> int \<Rightarrow> int" where
  "elapsed start now = now - start"

definition remaining :: "int \<Rightarrow> int \<Rightarrow> int" where
  "remaining start now = TIMEOUT_MS - elapsed start now"

definition timeOk :: "int \<Rightarrow> int \<Rightarrow> int \<Rightarrow> bool" where
  "timeOk start now neededMs \<longleftrightarrow> remaining start now > neededMs"

section \<open>Per-term budget and pre-trim\<close>

text \<open>
  For search term \<open>i\<close> (0-based) of \<open>n = searchTerms.length\<close>, with \<open>rem\<close> the value
  of \<open>remaining()\<close>:
  \<^verbatim>\<open>
  const remainingTerms = searchTerms.length - i - 1;
  const reserveForFuture = remainingTerms * 25_000;
  const termTimeLimit = remaining() - reserveForFuture - 5_000;
  const termDeadline = Date.now() + Math.max(termTimeLimit, 25_000);
  const msForExtraction = termDeadline - Date.now();
  const maxExtractable = Math.max(Math.floor(msForExtraction / 8_000), 1);
  const newLinksTrimmed = newLinks.slice(0, maxExtractable);
  \<close>
  \<open>termAllowance\<close> names the expression \<open>Math.max(termTimeLimit, 25_000)\<close>, which the
  source writes twice (in the deadline and in the log line). On integers
  \<open>Math.floor(a / 8000)\<close> is \<open>a div 8000\<close>, which rounds towards minus infinity.
\<close>

definition remainingTerms :: "nat \<Rightarrow> nat \<Rightarrow> int" where
  "remainingTerms n i = int n - int i - 1"

definition reserveForFuture :: "nat \<Rightarrow> nat \<Rightarrow> int" where
  "reserveForFuture n i = remainingTerms n i * 25000"

definition termTimeLimit :: "int \<Rightarrow> nat \<Rightarrow> nat \<Rightarrow> int" where
  "termTimeLimit rem n i = rem - reserveForFuture n i - 5000"

definition termAllowance :: "int \<Rightarrow> nat \<Rightarrow> nat \<Rightarrow> int" where
  "termAllowance rem n i = max (termTimeLimit rem n i) 25000"

definition termDeadline :: "int \<Rightarrow> int \<Rightarrow> nat \<Rightarrow> nat \<Rightarrow> int" where
  "termDeadline now rem n i = now + termAllowance rem n i"

definition maxExtractable :: "int \<Rightarrow> int" where
  "maxExtractable msForExtraction = max (msForExtraction div 8000) 1"

text \<open>
  \<open>xs.slice(0, e)\<close> for an integer \<open>e\<close>: a negative \<open>e\<close> counts from the end of the
  array, and the end is clamped to the array.
\<close>

definition slice0 :: "'a list \<Rightarrow> int \<Rightarrow> 'a list" where
  "slice0 xs e =
     (if e < 0 then take (nat (max (int (length xs) + e) 0)) xs else take (nat e) xs)"

definition newLinksTrimmed :: "string list \<Rightarrow> int \<Rightarrow> string list" where
  "newLinksTrimmed newLinks msForExtraction = slice0 newLinks (maxExtractable msForExtraction)"

text \<open>
  The wait window of the enrichment reconciliation:
  \<^verbatim>\<open>
  const emailTimeout = Math.max(Math.min(remaining() - 10_000, 15_000), 3_000);
  \<close>
\<close>

definition emailTimeout :: "int \<Rightarrow> int" where
  "emailTimeout rem = max (min (rem - 10000) 15000) 3000"

section \<open>The extraction loop of one search term\<close>

text \<open>
  \<open>page.evaluate\<close> returns the object \<open>data\<close>; the loop then sets \<open>data.url\<close> and
  \<open>data.emails\<close> and deletes \<open>data.email\<close>. The record carries the fields the
  orchestrator reads or writes (the other scraped fields are passed through untouched);
  a deleted or absent string field is the empty string, which is how the source tests
  them (\<open>!data.placeName\<close>, \<open>data.email ? ... : ...\<close>, \<open>data.website &&\<close>).
\<close>

record place_data =
  placeName :: string
  website :: string
  email :: string
  url :: string
  emails :: "string list"

text \<open>
  The promise returned by \<open>scrapeEmailsFromWebsite(data.website).catch(() => [])\<close>:
  it never rejects; it is fulfilled with a list of addresses at some clock reading, or
  stays pending for ever.
\<close>

datatype promise = Never | SettlesAt int "string list"

record email_job =
  idx :: nat
  promise :: promise

text \<open>
  What the environment does when the loop visits one link: \<open>took\<close> is the time the
  iteration takes (navigation, the wait for \<open>h1\<close>, the evaluation, the optional review
  pass), \<open>evaluated\<close> is the object returned by \<open>page.evaluate\<close>, or \<open>None\<close> when
  \<open>page.goto\<close> or \<open>page.evaluate\<close> throws, and \<open>emailLookup\<close> is the future of the
  e-mail lookup, should the loop start one for this place.
\<close>

record visit =
  took :: nat
  evaluated :: "place_data option"
  emailLookup :: promise

text \<open>
  The variables of the loop. \<open>navigated\<close> is a ghost log of the links handed to
  \<open>page.goto\<close>; \<open>clock\<close> is the current value of \<open>Date.now()\<close>.
\<close>

record term_state =
  clock :: int
  results :: "place_data list"
  emailJobs :: "email_job list"
  extractedUrls :: "string set"
  navigated :: "string list"

text \<open>
  One iteration of \<open>for (let j = 0; j < newLinksTrimmed.length; j++)\<close> after its
  deadline check: the \<open>try\<close> block, whose \<open>catch\<close> only logs, and the
  \<open>if (!data.placeName) continue\<close>.
\<close>

definition visitPlace :: "bool \<Rightarrow> (string \<Rightarrow> visit) \<Rightarrow> string \<Rightarrow> term_state \<Rightarrow> term_state" where
  "visitPlace scrapeEmails env link s =
     (let v = env link;
          s1 = s\<lparr>clock := clock s + int (took v), navigated := navigated s @ [link]\<rparr>
      in case evaluated v of
           None \<Rightarrow> s1
         | Some d \<Rightarrow>
             if placeName d = [] then s1
             else
               let d1 = d\<lparr>url := link,
                          emails := (if email d \<noteq> [] then [email d] else []),
                          email := []\<rparr>;
                   jobs = (if scrapeEmails \<and> website d1 \<noteq> [] \<and> length (emails d1) = 0
                           then emailJobs s1 @ [\<lparr>idx = length (results s1), promise = emailLookup v\<rparr>]
                           else emailJobs s1)
               in s1\<lparr>emailJobs := jobs,
                      results := results s1 @ [d1],
                      extractedUrls := insert link (extractedUrls s1)\<rparr>)"

text \<open>
  The loop with its early exit \<open>if (Date.now() + 5_000 > termDeadline) break\<close>.
\<close>

fun extractLoop :: "bool \<Rightarrow> int \<Rightarrow> (string \<Rightarrow> visit) \<Rightarrow> string list \<Rightarrow> term_state \<Rightarrow> term_state" where
  "extractLoop scrapeEmails deadline env [] s = s"
| "extractLoop scrapeEmails deadline env (link # links) s =
     (if clock s + 5000 > deadline then s
      else extractLoop scrapeEmails deadline env links (visitPlace scrapeEmails env link s))"

section \<open>Reconciliation of the e-mail lookups\<close>

text \<open>
  \<^verbatim>\<open>
  const settled = await Promise.race([
      Promise.allSettled(emailJobs.map(j => j.promise)),
      sleep(emailTimeout).then(() => null)
  ]);
  \<close>
  \<open>Promise.allSettled\<close> settles once every job has settled; the timer fires at
  \<open>expiry\<close>, the clock reading at the start of the race plus \<open>emailTimeout\<close>. A job has
  resolved within the window when it settles before the timer fires.
\<close>

fun resolvedBy :: "int \<Rightarrow> promise \<Rightarrow> bool" where
  "resolvedBy expiry Never = False"
| "resolvedBy expiry (SettlesAt t v) = (t < expiry)"

fun fulfilledValue :: "promise \<Rightarrow> string list" where
  "fulfilledValue Never = []"
| "fulfilledValue (SettlesAt t v) = v"

definition raceSettled :: "int \<Rightarrow> email_job list \<Rightarrow> string list list option" where
  "raceSettled expiry jobs =
     (if list_all (\<lambda>j. resolvedBy expiry (promise j)) jobs
      then Some (map (\<lambda>j. fulfilledValue (promise j)) jobs)
      else None)"

text \<open>
  \<^verbatim>\<open>
  for (let k = 0; k < emailJobs.length; k++) {
      if (settled[k]?.status === 'fulfilled' && settled[k].value.length > 0) {
          results[emailJobs[k].idx].emails = settled[k].value;
          emailsFound++;
      }
  }
  \<close>
  Writing \<open>.emails\<close> of an index outside \<open>results\<close> throws a \<open>TypeError\<close>, which
  leaves the loop over the search terms and fails the actor.
\<close>

datatype error = TypeError

fun patchEmails ::
  "email_job list \<Rightarrow> string list list \<Rightarrow> place_data list \<Rightarrow> nat \<Rightarrow> error + (place_data list \<times> nat)" where
  "patchEmails (j # js) (v # vs) rs emailsFound =
     (if length v > 0
      then (if idx j < length rs
            then patchEmails js vs (rs[idx j := (rs ! idx j)\<lparr>emails := v\<rparr>]) (emailsFound + 1)
            else Inl TypeError)
      else patchEmails js vs rs emailsFound)"
| "patchEmails js vs rs emailsFound = Inr (rs, emailsFound)"

text \<open>
  The block \<open>if (emailJobs.length > 0) { ... }\<close>. It returns the state with the patched
  results, and the counter \<open>emailsFound\<close> of the log line.
\<close>

definition resolveEmails :: "int \<Rightarrow> term_state \<Rightarrow> error + (term_state \<times> nat)" where
  "resolveEmails start s =
     (if length (emailJobs s) > 0
      then
        (let timeoutMs = emailTimeout (remaining start (clock s))
         in case raceSettled (clock s + timeoutMs) (emailJobs s) of
              None \<Rightarrow> Inr (s, 0)
            | Some settled \<Rightarrow>
                (case patchEmails (emailJobs s) settled (results s) 0 of
                   Inl e \<Rightarrow> Inl e
                 | Inr (rs, emailsFound) \<Rightarrow> Inr (s\<lparr>results := rs\<rparr>, emailsFound)))
      else Inr (s, 0))"

section \<open>One search term, and the loop over the search terms\<close>

text \<open>
  What the environment supplies for one search term: \<open>termLinks\<close> is the list
  \<open>placeLinks\<close> the collection phase ends with (empty when the term is left by
  \<open>continue\<close> because no place link was found); the five \<open>t...\<close> fields are the
  values of \<open>Date.now()\<close> at the loop head (\<open>timeOk(30_000)\<close>), inside
  \<open>remaining()\<close> of \<open>termTimeLimit\<close>, in \<open>termDeadline\<close>, in
  \<open>msForExtraction\<close> and at the first deadline check of the extraction loop; and
  \<open>visits\<close> tells what visiting a link does. After the first check the clock of the
  loop advances by the time each visit takes, and the reconciliation reads it where the
  loop left it.
\<close>

record term_env =
  tHead :: int
  termLinks :: "string list"
  tBudget :: int
  tDeadline :: int
  tTrim :: int
  tLoop :: int
  visits :: "string \<Rightarrow> visit"

definition newLinks :: "string set \<Rightarrow> string list \<Rightarrow> string list" where
  "newLinks ledger links = filter (\<lambda>url. url \<notin> ledger) links"

definition deadlineOf :: "int \<Rightarrow> nat \<Rightarrow> nat \<Rightarrow> term_env \<Rightarrow> int" where
  "deadlineOf start n i e = termDeadline (tDeadline e) (remaining start (tBudget e)) n i"

definition msForExtraction :: "int \<Rightarrow> nat \<Rightarrow> nat \<Rightarrow> term_env \<Rightarrow> int" where
  "msForExtraction start n i e = deadlineOf start n i e - tTrim e"

text \<open>Lines 1188 to 1380: filter, budget, pre-trim and the extraction loop.\<close>

definition extractTerm :: "int \<Rightarrow> bool \<Rightarrow> nat \<Rightarrow> nat \<Rightarrow> term_env \<Rightarrow> string set \<Rightarrow> term_state" where
  "extractTerm start scrapeEmails n i e ledger =
     extractLoop scrapeEmails (deadlineOf start n i e) (visits e)
       (newLinksTrimmed (newLinks ledger (termLinks e)) (msForExtraction start n i e))
       \<lparr>clock = tLoop e, results = [], emailJobs = [], extractedUrls = ledger, navigated = []\<rparr>"

definition processTerm ::
  "int \<Rightarrow> bool \<Rightarrow> nat \<Rightarrow> nat \<Rightarrow> term_env \<Rightarrow> string set \<Rightarrow> error + (term_state \<times> nat)" where
  "processTerm start scrapeEmails n i e ledger =
     resolveEmails start (extractTerm start scrapeEmails n i e ledger)"

text \<open>
  The state of the run across terms: the dedup set (\<open>extractedUrls\<close> of the source, a
  \<open>Set\<close> created once before the loop) and the records pushed to the dataset.
  \<open>termLog\<close> is a ghost log with one entry for every term whose extraction loop ran:
  the dedup set when the term filtered its candidates, the links the term navigated to,
  and the dedup set when its loop ended.
\<close>

record term_log =
  seenBefore :: "string set"
  visited :: "string list"
  seenAfter :: "string set"

record run_state =
  ledger :: "string set"
  dataset :: "place_data list"
  termLog :: "term_log list"

text \<open>
  \<open>for (let i = 0; i < searchTerms.length; i++)\<close>: \<open>n\<close> is \<open>searchTerms.length\<close>,
  the list holds the environments of the terms \<open>i, i + 1, ...\<close>. The loop breaks when
  \<open>timeOk(30_000)\<close> fails and skips a term without place links. The filters
  \<open>minRating\<close> and \<open>status\<close> are optional inputs and are taken as unset. An
  exception thrown outside the \<open>try\<close> block of the extraction loop (by a navigation of
  the search phase, by \<open>Actor.pushData\<close>) leaves the loop and ends the run. The model
  has no such exit: a run of the model is a run in which no such exception arises, and
  what is proved of it holds of the terms a run has processed before one does.
\<close>

fun runTerms ::
  "int \<Rightarrow> bool \<Rightarrow> nat \<Rightarrow> nat \<Rightarrow> term_env list \<Rightarrow> run_state \<Rightarrow> error + run_state" where
  "runTerms start scrapeEmails n i [] st = Inr st"
| "runTerms start scrapeEmails n i (e # es) st =
     (if \<not> timeOk start (tHead e) 30000 then Inr st
      else if termLinks e = [] then runTerms start scrapeEmails n (i + 1) es st
      else
        (case processTerm start scrapeEmails n i e (ledger st) of
           Inl err \<Rightarrow> Inl err
         | Inr (s, emailsFound) \<Rightarrow>
             runTerms start scrapeEmails n (i + 1) es
               (st\<lparr>ledger := extractedUrls s,
                   dataset := dataset st @ results s,
                   termLog := termLog st @
                     [\<lparr>seenBefore = ledger st, visited = navigated s,
                       seenAfter = extractedUrls s\<rparr>]\<rparr>)))"

section \<open>The pagination collector \<open>scrollAndCollect\<close>\<close>

text \<open>
  What one round of the \<open>while\<close> loop observes on the page: the clock reading of
  \<open>timeOk(10_000)\<close> in the loop condition, the \<open>href\<close>s of the place anchors in the
  DOM, whether the end-of-list probe returns a non-empty string, and whether the feed is
  at its bottom. The page of the run is a function from the round number to the
  observation; rounds are numbered from 0, and since every round that does not leave the
  loop increments \<open>scrollAttempts\<close> once, the round number is \<open>scrollAttempts\<close>.
\<close>

record round_obs =
  tCheck :: int
  links :: "string list"
  endReached :: bool
  atBottom :: bool

text \<open>The scroll and recovery actions a round performs on the page (a ghost log).\<close>

datatype scroll_action = NormalScroll | ScrollLastIntoView | KeyboardAdvance | ShowMore

text \<open>
  The variables of \<open>scrollAndCollect\<close>. A JavaScript \<open>Set\<close> of strings keeps its
  elements in insertion order, and \<open>Array.from\<close> returns them in that order: it is a
  list to which \<open>add\<close> appends a string that is not yet in it.
\<close>

record collector =
  placeLinks :: "string list"
  scrollAttempts :: nat
  previousCount :: nat
  staleRounds :: nat
  actions :: "scroll_action list"

definition setAdd :: "string \<Rightarrow> string list \<Rightarrow> string list" where
  "setAdd link s = (if link \<in> set s then s else s @ [link])"

text \<open>
  \<^verbatim>\<open>
  for (const link of links) {
      if (placeLinks.size >= maxResults) break;
      placeLinks.add(link);
  }
  \<close>
\<close>

fun harvest :: "nat \<Rightarrow> string list \<Rightarrow> string list \<Rightarrow> string list" where
  "harvest maxResults [] s = s"
| "harvest maxResults (link # rest) s =
     (if length s \<ge> maxResults then s else harvest maxResults rest (setAdd link s))"

text \<open>
  The body of the \<open>while\<close> loop. The first component of the result says whether the
  round left the loop by \<open>break\<close>; otherwise the round ends with \<open>scrollAttempts++\<close>.
\<close>

definition recovery :: "nat \<Rightarrow> scroll_action list" where
  "recovery stale =
     (if stale = 2 then [ScrollLastIntoView] else []) @
     (if stale = 3 then [KeyboardAdvance] else []) @
     (if stale = 4 then [ShowMore] else [])"

definition roundBody :: "nat \<Rightarrow> round_obs \<Rightarrow> collector \<Rightarrow> bool \<times> collector" where
  "roundBody maxResults ob c =
     (let s = harvest maxResults (links ob) (placeLinks c);
          stale = (if length s = previousCount c then staleRounds c + 1 else 0);
          c1 = c\<lparr>placeLinks := s, staleRounds := stale, previousCount := length s\<rparr>
      in if scrollAttempts c \<ge> 3 \<and> endReached ob then (True, c1)
         else if stale \<ge> 2
           then (if atBottom ob \<and> stale \<ge> 3 then (True, c1)
                 else
                   let c2 = c1\<lparr>actions := actions c1 @ recovery stale\<rparr>
                   in if stale \<ge> 5 then (True, c2)
                      else (False, c2\<lparr>scrollAttempts := scrollAttempts c2 + 1\<rparr>))
           else (False, c1\<lparr>actions := actions c1 @ [NormalScroll],
                           scrollAttempts := scrollAttempts c1 + 1\<rparr>))"

text \<open>
  \<open>while (placeLinks.size < maxResults && scrollAttempts < 100 && timeOk(10_000))\<close>.
  The function returns the trace of the loop: the state at the end of every round it
  entered, in order. The ceiling of 100 rounds bounds the recursion.
\<close>

function scrollLoop :: "int \<Rightarrow> nat \<Rightarrow> (nat \<Rightarrow> round_obs) \<Rightarrow> collector \<Rightarrow> collector list" where
  "scrollLoop start maxResults page c =
     (if length (placeLinks c) < maxResults \<and> scrollAttempts c < 100
         \<and> timeOk start (tCheck (page (scrollAttempts c))) 10000
      then (case roundBody maxResults (page (scrollAttempts c)) c of
              (True, c') \<Rightarrow> [c']
            | (False, c') \<Rightarrow> c' # scrollLoop start maxResults page c')
      else [])"
  by pat_completeness auto
termination
  by (relation "measure (\<lambda>(start, maxResults, page, c). 100 - scrollAttempts c)")
     (auto simp: roundBody_def Let_def split: if_splits)

definition collector0 :: collector where
  "collector0 = \<lparr>placeLinks = [], scrollAttempts = 0, previousCount = 0, staleRounds = 0, actions = []\<rparr>"

definition scrollAndCollect :: "int \<Rightarrow> (nat \<Rightarrow> round_obs) \<Rightarrow> nat \<Rightarrow> string list" where
  "scrollAndCollect start page maxResults =
     (case scrollLoop start maxResults page collector0 of
        [] \<Rightarrow> []
      | c # cs \<Rightarrow> placeLinks (last (c # cs)))"

section \<open>Launching the browser, with the proxy fallback\<close>












section \<open>Notions used in the statements\<close>

text \<open>
  An extraction succeeds when the page is evaluated and has a place name: this is the
  path of the loop body that reaches \<open>results.push(data)\<close>.
\<close>

definition succeeds :: "visit \<Rightarrow> bool" where
  "succeeds v = (case evaluated v of None \<Rightarrow> False | Some d \<Rightarrow> placeName d \<noteq> [])"

text \<open>
  The invariant of the extraction loop on its e-mail jobs: every job points at a record of
  \<open>results\<close> whose \<open>emails\<close> is still the empty default, and no two jobs point at
  the same record.
\<close>

definition jobsOk :: "term_state \<Rightarrow> bool" where
  "jobsOk s \<longleftrightarrow>
     (\<forall>j \<in> set (emailJobs s). idx j < length (results s) \<and> emails (results s ! idx j) = [])
     \<and> distinct (map idx (emailJobs s))"

text \<open>The number of jobs that have resolved when the timer of the race fires.\<close>

definition resolvedJobs :: "int \<Rightarrow> email_job list \<Rightarrow> nat" where
  "resolvedJobs expiry jobs = length (filter (\<lambda>j. resolvedBy expiry (promise j)) jobs)"

text \<open>The \<open>emails\<close> fields of the records of a processed term, and the dedup set of a run.\<close>

definition resultEmails :: "error + (term_state \<times> nat) \<Rightarrow> string list list" where
  "resultEmails r = (case r of Inl e \<Rightarrow> [] | Inr (s, found) \<Rightarrow> map emails (results s))"

definition finalLedger :: "error + run_state \<Rightarrow> string set option" where
  "finalLedger r = (case r of Inl e \<Rightarrow> None | Inr st \<Rightarrow> Some (ledger st))"

text \<open>
  The log of a run, and what an entry of the log says of a term of the run: the links
  it lists are the ones the extraction loop of that term navigates to when it starts
  from the dedup set of the entry, and the dedup set after it is the one that loop ends
  with.
\<close>

definition finalLog :: "error + run_state \<Rightarrow> term_log list" where
  "finalLog r = (case r of Inl e \<Rightarrow> [] | Inr st \<Rightarrow> termLog st)"

definition termEntry :: "int \<Rightarrow> bool \<Rightarrow> nat \<Rightarrow> term_env list \<Rightarrow> term_log \<Rightarrow> bool" where
  "termEntry start se n es t \<longleftrightarrow>
     (\<exists>e \<in> set es. \<exists>k.
        visited t = navigated (extractTerm start se n k e (seenBefore t))
        \<and> seenAfter t = extractedUrls (extractTerm start se n k e (seenBefore t)))"

text \<open>
  For the collector: the condition of the \<open>while\<close> loop, the bound on the running set,
  and the order in which the running sets of two states stand.
\<close>

definition enters :: "int \<Rightarrow> nat \<Rightarrow> (nat \<Rightarrow> round_obs) \<Rightarrow> collector \<Rightarrow> bool" where
  "enters start N page c \<longleftrightarrow>
     length (placeLinks c) < N \<and> scrollAttempts c < 100
     \<and> timeOk start (tCheck (page (scrollAttempts c))) 10000"

definition linksOk :: "nat \<Rightarrow> collector \<Rightarrow> bool" where
  "linksOk N c \<longleftrightarrow> distinct (placeLinks c) \<and> length (placeLinks c) \<le> N"

definition grows :: "collector \<Rightarrow> collector \<Rightarrow> bool" where
  "grows a b \<longleftrightarrow> set (placeLinks a) \<subseteq> set (placeLinks b)"

section \<open>Example environments\<close>

text \<open>
  A place page with a name and a website and no address on the page; two such places
  behind the links \<open>A\<close> and \<open>B\<close>, each visit taking \<open>ms\<close> milliseconds, with the
  given futures of their lookups; and a term all of whose clock readings are \<open>t\<close>.
\<close>

definition place :: "string \<Rightarrow> string \<Rightarrow> place_data" where
  "place name site = \<lparr>placeName = name, website = site, email = [], url = [], emails = []\<rparr>"

definition cafes :: "nat \<Rightarrow> promise \<Rightarrow> promise \<Rightarrow> string \<Rightarrow> visit" where
  "cafes ms pa pb link =
     (if link = ''A''
      then \<lparr>took = ms, evaluated = Some (place ''Cafe A'' ''http://a.org''), emailLookup = pa\<rparr>
      else \<lparr>took = ms, evaluated = Some (place ''Cafe B'' ''http://b.org''), emailLookup = pb\<rparr>)"

definition termAt :: "int \<Rightarrow> string list \<Rightarrow> (string \<Rightarrow> visit) \<Rightarrow> term_env" where
  "termAt t ls env =
     \<lparr>tHead = t, termLinks = ls, tBudget = t, tDeadline = t, tTrim = t, tLoop = t, visits = env\<rparr>"

text \<open>
  Pages whose navigation runs into the 30 s navigation timeout; the same with a second
  place that loads; and forty distinct links.
\<close>

definition slowPages :: "string \<Rightarrow> visit" where
  "slowPages link = \<lparr>took = 30000, evaluated = None, emailLookup = Never\<rparr>"

definition flakyCafes :: "string \<Rightarrow> visit" where
  "flakyCafes link =
     (if link = ''A''
      then \<lparr>took = 30000, evaluated = None, emailLookup = Never\<rparr>
      else \<lparr>took = 4000, evaluated = Some (place ''Cafe B'' ''http://b.org''), emailLookup = Never\<rparr>)"

definition links40 :: "string list" where
  "links40 = map (\<lambda>k. replicate k CHR ''p'') [1..<41]"

text \<open>
  A result page that shows one more place link in every round, \<open>p\<close>, \<open>pp\<close>, ...,
  and the end-of-list marker from round \<open>m\<close> on.
\<close>

definition growingPage :: "nat \<Rightarrow> nat \<Rightarrow> round_obs" where
  "growingPage m k =
     \<lparr>tCheck = 1500 * int k,
      links = map (\<lambda>i. replicate i CHR ''p'') [1..<k + 2],
      endReached = (m \<le> k),
      atBottom = False\<rparr>"


section \<open>Evaluation of the model on concrete inputs\<close>

lemmas run_simps = processTerm_def extractTerm_def resolveEmails_def raceSettled_def
  visitPlace_def newLinksTrimmed_def newLinks_def slice0_def maxExtractable_def
  deadlineOf_def msForExtraction_def termDeadline_def termAllowance_def termTimeLimit_def
  reserveForFuture_def remainingTerms_def remaining_def elapsed_def TIMEOUT_MS_def
  emailTimeout_def resolvedJobs_def Let_def place_def cafes_def termAt_def resultEmails_def

lemmas collect_simps = scrollLoop.simps roundBody_def setAdd_def recovery_def
  collector0_def scrollAndCollect_def growingPage_def timeOk_def remaining_def elapsed_def
  TIMEOUT_MS_def Let_def upt_rec


section \<open>The budget of a term\<close>

lemma maxExtractable_ge1: "1 \<le> maxExtractable ms"
  by (simp add: maxExtractable_def)

lemma termAllowance_ge: "25000 \<le> termAllowance rem n i"
  by (simp add: termAllowance_def)

lemma maxExtractable_le_allowance:
  assumes "ms \<le> a" "25000 \<le> a"
  shows "maxExtractable ms \<le> a div 8000"
proof -
  have "ms div 8000 \<le> a div 8000" using assms(1) by (simp add: zdiv_mono1)
  moreover have "(25000::int) div 8000 \<le> a div 8000" using assms(2) by (rule zdiv_mono1) simp
  ultimately show ?thesis by (simp add: maxExtractable_def)
qed

lemma length_slice0: "0 \<le> k \<Longrightarrow> length (slice0 xs k) = min (length xs) (nat k)"
  by (simp add: slice0_def)

lemma length_newLinksTrimmed:
  "length (newLinksTrimmed ls ms) = min (length ls) (nat (maxExtractable ms))"
  using maxExtractable_ge1 [of ms] by (simp add: newLinksTrimmed_def length_slice0)

text \<open>
  Claim C2. Before term \<open>i\<close> (0-based) of \<open>n\<close> the scheduler reserves
  \<open>(n - i - 1) * 25000\<close> ms for the terms to come and allows the term
  \<open>max (remaining() - reserve - 5000) 25000\<close> ms, counted from the clock reading of
  \<open>termDeadline\<close>. The reserve is never negative for a term of the loop (\<open>i < n\<close>), the
  allowance is never below 25000 ms. With three terms and 10000 ms of the 270000 ms
  elapsed when the second term (\<open>i = 1\<close>) starts, \<open>remaining()\<close> is 260000, the reserve
  is 25000 and the allowance is 230000.
\<close>

theorem term_budget_formula:
  "reserveForFuture n i = (int n - int i - 1) * 25000
   \<and> termAllowance rem n i = max (rem - reserveForFuture n i - 5000) 25000
   \<and> deadlineOf start n i e = tDeadline e + termAllowance (remaining start (tBudget e)) n i
   \<and> (i < n \<longrightarrow> 0 \<le> reserveForFuture n i)
   \<and> 25000 \<le> termAllowance rem n i
   \<and> remaining start (start + 10000) = 260000
   \<and> reserveForFuture 3 1 = 25000
   \<and> termAllowance (remaining start (start + 10000)) 3 1 = 230000"
  by (simp add: reserveForFuture_def remainingTerms_def termAllowance_def termTimeLimit_def
      deadlineOf_def termDeadline_def remaining_def elapsed_def TIMEOUT_MS_def)

theorem term_budget_formula_witness:
  "(1::nat) < 3 \<and> 0 \<le> reserveForFuture 3 1 \<and> 25000 \<le> termAllowance 260000 3 1
   \<and> termAllowance 260000 3 1 = 230000"
  using term_budget_formula [of 3 1 260000 0]
  by (simp add: remaining_def elapsed_def TIMEOUT_MS_def)

text \<open>
  Claim C9. The wait window \<open>emailTimeout\<close> is
  \<open>max (min (remaining() - 10000) 15000) 3000\<close>: it lies between 3000 and 15000 ms for
  every reading of the clock, and it is 3000 ms when \<open>remaining() - 10000\<close> is zero or
  negative.
\<close>

theorem email_timeout_window:
  "emailTimeout (remaining start now) = max (min (remaining start now - 10000) 15000) 3000
   \<and> 3000 \<le> emailTimeout (remaining start now)
   \<and> emailTimeout (remaining start now) \<le> 15000
   \<and> (remaining start now - 10000 \<le> 0 \<longrightarrow> emailTimeout (remaining start now) = 3000)"
  by (simp add: emailTimeout_def)

theorem email_timeout_window_witness:
  "remaining 0 265000 - 10000 \<le> 0 \<and> emailTimeout (remaining 0 265000) = 3000"
  using email_timeout_window [of 0 265000]
  by (simp add: remaining_def elapsed_def TIMEOUT_MS_def)

section \<open>The extraction loop\<close>

lemma visitPlace_clock: "clock (visitPlace se env l s) = clock s + int (took (env l))"
  by (simp add: visitPlace_def Let_def split: option.splits)

lemma visitPlace_navigated: "navigated (visitPlace se env l s) = navigated s @ [l]"
  by (simp add: visitPlace_def Let_def split: option.splits)

lemma visitPlace_extractedUrls:
  "extractedUrls (visitPlace se env l s) =
     (if succeeds (env l) then insert l (extractedUrls s) else extractedUrls s)"
  by (simp add: visitPlace_def succeeds_def Let_def split: option.splits)

lemma visitPlace_results_length:
  "length (results (visitPlace se env l s)) =
     (if succeeds (env l) then Suc (length (results s)) else length (results s))"
  by (simp add: visitPlace_def succeeds_def Let_def split: option.splits)

lemma extractLoop_navigated:
  "\<exists>k \<le> length ls. navigated (extractLoop se dl env ls s) = navigated s @ take k ls"
proof (induction ls arbitrary: s)
  case Nil
  then show ?case by simp
next
  case (Cons l ls)
  show ?case
  proof (cases "clock s + 5000 > dl")
    case True
    then have "navigated (extractLoop se dl env (l # ls) s) = navigated s @ take 0 (l # ls)"
      by simp
    then show ?thesis by blast
  next
    case False
    from Cons.IH [of "visitPlace se env l s"] obtain k where
      k: "k \<le> length ls"
         "navigated (extractLoop se dl env ls (visitPlace se env l s))
            = navigated (visitPlace se env l s) @ take k ls"
      by blast
    with False have "navigated (extractLoop se dl env (l # ls) s) = navigated s @ take (Suc k) (l # ls)"
      by (simp add: visitPlace_navigated)
    moreover have "Suc k \<le> length (l # ls)" using k by simp
    ultimately show ?thesis by blast
  qed
qed

lemma extractLoop_navigated_length:
  "length (navigated (extractLoop se dl env ls s)) \<le> length (navigated s) + length ls"
  using extractLoop_navigated [of ls se dl env s] by auto

lemma extractLoop_extractedUrls:
  "extractedUrls s = L \<union> {l \<in> set (navigated s). succeeds (env l)} \<Longrightarrow>
   extractedUrls (extractLoop se dl env ls s)
     = L \<union> {l \<in> set (navigated (extractLoop se dl env ls s)). succeeds (env l)}"
proof (induction ls arbitrary: s)
  case Nil
  then show ?case by simp
next
  case (Cons l ls)
  show ?case
  proof (cases "clock s + 5000 > dl")
    case True
    with Cons.prems show ?thesis by simp
  next
    case False
    have "extractedUrls (visitPlace se env l s)
            = L \<union> {x \<in> set (navigated (visitPlace se env l s)). succeeds (env x)}"
      using Cons.prems by (auto simp: visitPlace_extractedUrls visitPlace_navigated)
    from Cons.IH [OF this] False show ?thesis by simp
  qed
qed

lemma extractLoop_first:
  assumes "clock s + 5000 \<le> dl"
  shows "navigated (extractLoop se dl env (l # ls) s) \<noteq> []"
proof -
  obtain k where "navigated (extractLoop se dl env ls (visitPlace se env l s))
      = navigated (visitPlace se env l s) @ take k ls"
    using extractLoop_navigated by blast
  with assms show ?thesis by (simp add: visitPlace_navigated)
qed

lemma extractLoop_all:
  assumes "\<forall>l \<in> set ls. took (env l) \<le> c"
    and "clock s + int c * (int (length ls) - 1) + 5000 \<le> dl"
    and "ls \<noteq> []"
  shows "navigated (extractLoop se dl env ls s) = navigated s @ ls"
  using assms
proof (induction ls arbitrary: s)
  case Nil
  then show ?case by simp
next
  case (Cons l ls)
  have "0 \<le> int c * (int (length (l # ls)) - 1)" by simp
  with Cons.prems(2) have chk: "\<not> clock s + 5000 > dl" by linarith
  show ?case
  proof (cases "ls = []")
    case True
    with chk show ?thesis by (simp add: visitPlace_navigated)
  next
    case False
    have t: "int (took (env l)) \<le> int c" using Cons.prems(1) by simp
    have "clock (visitPlace se env l s) + int c * (int (length ls) - 1) + 5000 \<le> dl"
      using Cons.prems(2) t by (simp add: visitPlace_clock algebra_simps)
    with Cons.IH [of "visitPlace se env l s"] Cons.prems(1) False
    have "navigated (extractLoop se dl env ls (visitPlace se env l s))
            = navigated (visitPlace se env l s) @ ls" by simp
    with chk show ?thesis by (simp add: visitPlace_navigated)
  qed
qed

lemma visitPlace_jobsOk: "jobsOk s \<Longrightarrow> jobsOk (visitPlace se env l s)"
  unfolding jobsOk_def visitPlace_def Let_def
  by (auto simp: nth_append split: option.splits)

lemma extractLoop_jobsOk: "jobsOk s \<Longrightarrow> jobsOk (extractLoop se dl env ls s)"
  by (induction ls arbitrary: s) (simp_all add: visitPlace_jobsOk)

lemma extractTerm_jobsOk: "jobsOk (extractTerm start se n i e seen)"
  unfolding extractTerm_def by (rule extractLoop_jobsOk) (simp add: jobsOk_def)

lemma extractTerm_navigated_prefix:
  "\<exists>k \<le> length (newLinksTrimmed (newLinks seen (termLinks e)) (msForExtraction start n i e)).
      navigated (extractTerm start se n i e seen)
        = take k (newLinksTrimmed (newLinks seen (termLinks e)) (msForExtraction start n i e))"
  unfolding extractTerm_def
  using extractLoop_navigated [of "newLinksTrimmed (newLinks seen (termLinks e)) (msForExtraction start n i e)"
      se "deadlineOf start n i e" "visits e"
      "\<lparr>clock = tLoop e, results = [], emailJobs = [], extractedUrls = seen, navigated = []\<rparr>"]
  by simp

lemma extractTerm_navigated_new:
  "set (navigated (extractTerm start se n i e seen)) \<subseteq> set (termLinks e) - seen"
proof -
  obtain k where "navigated (extractTerm start se n i e seen)
        = take k (newLinksTrimmed (newLinks seen (termLinks e)) (msForExtraction start n i e))"
    using extractTerm_navigated_prefix by blast
  then show ?thesis
    by (auto simp: newLinksTrimmed_def slice0_def newLinks_def dest!: in_set_takeD split: if_splits)
qed

lemma extractTerm_extractedUrls:
  "extractedUrls (extractTerm start se n i e seen)
     = seen \<union> {l \<in> set (navigated (extractTerm start se n i e seen)). succeeds (visits e l)}"
  unfolding extractTerm_def by (rule extractLoop_extractedUrls) simp

lemma attempted_bound:
  assumes "tDeadline e \<le> tTrim e"
  shows "int (length (navigated (extractTerm start se n i e seen)))
           \<le> termAllowance (remaining start (tBudget e)) n i div 8000"
proof -
  let ?a = "termAllowance (remaining start (tBudget e)) n i"
  let ?ms = "msForExtraction start n i e"
  let ?tr = "newLinksTrimmed (newLinks seen (termLinks e)) ?ms"
  have "?ms \<le> ?a" using assms by (simp add: msForExtraction_def deadlineOf_def termDeadline_def)
  then have m: "maxExtractable ?ms \<le> ?a div 8000"
    using termAllowance_ge by (rule maxExtractable_le_allowance)
  obtain k where "k \<le> length ?tr" "navigated (extractTerm start se n i e seen) = take k ?tr"
    using extractTerm_navigated_prefix by blast
  then have "length (navigated (extractTerm start se n i e seen)) \<le> length ?tr" by simp
  also have "\<dots> \<le> nat (maxExtractable ?ms)" by (simp add: length_newLinksTrimmed)
  finally have "int (length (navigated (extractTerm start se n i e seen))) \<le> maxExtractable ?ms"
    using maxExtractable_ge1 [of ?ms] by linarith
  with m show ?thesis by linarith
qed

text \<open>
  Claim C3, as amended. With a clock that does not run backwards between the two readings
  of the budget block, the number of links a term navigates to never exceeds
  \<open>termAllowance div 8000\<close>. With 40 new links and an allowance of 100000 ms, all of it
  left at the pre-trim, the pre-trimmed list has exactly 12 links and at most 12 are
  navigated to; all 12 are when no visit takes more than 8000 ms and the loop starts
  within 7000 ms of the deadline's computation. The loop's own deadline check
  (\<open>Date.now() + 5_000 > termDeadline\<close>) may stop it earlier.
\<close>

theorem pretrim_bound:
  assumes mono: "tDeadline e \<le> tTrim e"
  shows "int (length (navigated (extractTerm start se n i e seen)))
           \<le> termAllowance (remaining start (tBudget e)) n i div 8000
     \<and> (length (newLinks seen (termLinks e)) = 40
          \<and> termAllowance (remaining start (tBudget e)) n i = 100000
          \<and> tTrim e = tDeadline e \<longrightarrow>
          length (newLinksTrimmed (newLinks seen (termLinks e)) (msForExtraction start n i e)) = 12
          \<and> length (navigated (extractTerm start se n i e seen)) \<le> 12
          \<and> ((\<forall>l \<in> set (termLinks e). took (visits e l) \<le> 8000) \<and> tLoop e \<le> tDeadline e + 7000 \<longrightarrow>
                length (navigated (extractTerm start se n i e seen)) = 12))"
proof (intro conjI impI)
  show b: "int (length (navigated (extractTerm start se n i e seen)))
           \<le> termAllowance (remaining start (tBudget e)) n i div 8000"
    using mono by (rule attempted_bound)
next
  let ?tr = "newLinksTrimmed (newLinks seen (termLinks e)) (msForExtraction start n i e)"
  assume sc: "length (newLinks seen (termLinks e)) = 40
          \<and> termAllowance (remaining start (tBudget e)) n i = 100000 \<and> tTrim e = tDeadline e"
  then have ms: "msForExtraction start n i e = 100000"
    by (simp add: msForExtraction_def deadlineOf_def termDeadline_def)
  show len: "length ?tr = 12"
    using sc ms by (simp add: length_newLinksTrimmed maxExtractable_def)
  have "int (length (navigated (extractTerm start se n i e seen))) \<le> 100000 div 8000"
    using attempted_bound [OF mono, of start se n i seen] sc by simp
  then show "length (navigated (extractTerm start se n i e seen)) \<le> 12" by simp
  assume fast: "(\<forall>l \<in> set (termLinks e). took (visits e l) \<le> 8000) \<and> tLoop e \<le> tDeadline e + 7000"
  have sub: "set ?tr \<subseteq> set (termLinks e)"
    by (auto simp: newLinksTrimmed_def slice0_def newLinks_def dest: in_set_takeD)
  have dl: "deadlineOf start n i e = tDeadline e + 100000"
    using sc by (simp add: deadlineOf_def termDeadline_def)
  have ne: "?tr \<noteq> []" using len by auto
  have "navigated (extractTerm start se n i e seen) = [] @ ?tr"
    unfolding extractTerm_def
    using extractLoop_all [of ?tr "visits e" 8000
        "\<lparr>clock = tLoop e, results = [], emailJobs = [], extractedUrls = seen, navigated = []\<rparr>"
        "deadlineOf start n i e" se] fast sub ne len dl
    by auto
  with len show "length (navigated (extractTerm start se n i e seen)) = 12" by simp
qed

text \<open>
  The 12 navigations of the scenario happen with visits of 5 s each.
\<close>

theorem pretrim_bound_witness:
  "tDeadline (termAt 165000 links40 (cafes 5000 Never Never)) \<le> tTrim (termAt 165000 links40 (cafes 5000 Never Never))
   \<and> length (newLinks {} (termLinks (termAt 165000 links40 (cafes 5000 Never Never)))) = 40
   \<and> termAllowance (remaining 0 (tBudget (termAt 165000 links40 (cafes 5000 Never Never)))) 1 0 = 100000
   \<and> length (navigated (extractTerm 0 True 1 0 (termAt 165000 links40 (cafes 5000 Never Never)) {})) = 12"
  using pretrim_bound [where e = "termAt 165000 links40 (cafes 5000 Never Never)"
      and start = 0 and n = 1 and i = 0 and seen = "{}" and se = True]
  by (simp add: run_simps links40_def upt_rec)

text \<open>
  "Exactly 12 items are attempted" fails when pages are slow: with the same 40 links and
  the same allowance of 100000 ms, visits that each run into the navigation timeout of
  30 s leave the loop at its deadline check after 4 navigations.
\<close>

theorem pretrim_exact_counterexample:
  "length links40 = 40
   \<and> length (newLinks {} (termLinks (termAt 165000 links40 slowPages))) = 40
   \<and> termAllowance (remaining 0 (tBudget (termAt 165000 links40 slowPages))) 1 0 = 100000
   \<and> length (navigated (extractTerm 0 True 1 0 (termAt 165000 links40 slowPages) {})) = 4"
  by (simp add: run_simps links40_def slowPages_def upt_rec)

text \<open>
  Claim C10. \<open>maxExtractable\<close> is at least 1 for every value of \<open>msForExtraction\<close>,
  and at least 3 from 25000 ms on, hence for every term whose pre-trim reads the clock
  within a second of the deadline's computation. The pre-trim never empties a non-empty
  list, and a term with a new link navigates to at least one link, whatever the computed
  \<open>termTimeLimit\<close> is, when its loop starts within 20 s of the deadline's computation
  (the statements in between are synchronous).
\<close>

theorem pretrim_keeps_one:
  "1 \<le> maxExtractable ms
   \<and> (25000 \<le> ms \<longrightarrow> 3 \<le> maxExtractable ms)
   \<and> (tTrim e \<le> tDeadline e + 1000 \<longrightarrow> 3 \<le> maxExtractable (msForExtraction start n i e))
   \<and> (ls \<noteq> [] \<longrightarrow> newLinksTrimmed ls ms \<noteq> [])
   \<and> (newLinks seen (termLinks e) \<noteq> [] \<and> tLoop e \<le> tDeadline e + 20000 \<longrightarrow>
        navigated (extractTerm start se n i e seen) \<noteq> [])"
proof (intro conjI impI)
  show "1 \<le> maxExtractable ms" by (rule maxExtractable_ge1)
  show "3 \<le> maxExtractable ms" if "25000 \<le> ms"
  proof -
    have "(25000::int) div 8000 \<le> ms div 8000" using that by (rule zdiv_mono1) simp
    then show ?thesis by (simp add: maxExtractable_def)
  qed
  show "3 \<le> maxExtractable (msForExtraction start n i e)" if "tTrim e \<le> tDeadline e + 1000"
  proof -
    have "24000 \<le> msForExtraction start n i e"
      using that termAllowance_ge [of "remaining start (tBudget e)" n i]
      by (simp add: msForExtraction_def deadlineOf_def termDeadline_def)
    then have "(24000::int) div 8000 \<le> msForExtraction start n i e div 8000"
      by (rule zdiv_mono1) simp
    then show ?thesis by (simp add: maxExtractable_def)
  qed
  show "newLinksTrimmed ls ms \<noteq> []" if "ls \<noteq> []"
  proof -
    have "0 < length (newLinksTrimmed ls ms)"
      using that maxExtractable_ge1 [of ms] by (simp add: length_newLinksTrimmed)
    then show ?thesis by auto
  qed
  show "navigated (extractTerm start se n i e seen) \<noteq> []"
    if h: "newLinks seen (termLinks e) \<noteq> [] \<and> tLoop e \<le> tDeadline e + 20000"
  proof -
    let ?tr = "newLinksTrimmed (newLinks seen (termLinks e)) (msForExtraction start n i e)"
    have "0 < length ?tr"
      using h maxExtractable_ge1 [of "msForExtraction start n i e"]
      by (simp add: length_newLinksTrimmed)
    then obtain l rest where tr: "?tr = l # rest" by (cases ?tr) auto
    have "tLoop e + 5000 \<le> deadlineOf start n i e"
      using h termAllowance_ge [of "remaining start (tBudget e)" n i]
      by (simp add: deadlineOf_def termDeadline_def)
    then show ?thesis
      unfolding extractTerm_def tr by (intro extractLoop_first) simp
  qed
qed

text \<open>
  A term that starts with 40 s left and two more terms to come has a negative
  \<open>termTimeLimit\<close> and an allowance of 25 s; its first link is navigated to (the
  navigation times out, and the deadline check then ends the loop).
\<close>

theorem pretrim_keeps_one_witness:
  "(25000::int) \<le> 25000 \<and> maxExtractable 25000 = 3
   \<and> timeOk 0 (tHead (termAt 230000 [''A'', ''B''] flakyCafes)) 30000
   \<and> termTimeLimit (remaining 0 (tBudget (termAt 230000 [''A'', ''B''] flakyCafes))) 3 0 = - 15000
   \<and> maxExtractable (- 15000) = 1
   \<and> tTrim (termAt 230000 [''A'', ''B''] flakyCafes) \<le> tDeadline (termAt 230000 [''A'', ''B''] flakyCafes) + 1000
   \<and> maxExtractable (msForExtraction 0 3 0 (termAt 230000 [''A'', ''B''] flakyCafes)) = 3
   \<and> [''A'', ''B''] \<noteq> [] \<and> newLinksTrimmed [''A'', ''B''] 25000 = [''A'', ''B'']
   \<and> newLinksTrimmed [''A'', ''B''] (- 15000) = [''A'']
   \<and> newLinks {} (termLinks (termAt 230000 [''A'', ''B''] flakyCafes)) \<noteq> []
   \<and> tLoop (termAt 230000 [''A'', ''B''] flakyCafes) \<le> tDeadline (termAt 230000 [''A'', ''B''] flakyCafes) + 20000
   \<and> navigated (extractTerm 0 True 3 0 (termAt 230000 [''A'', ''B''] flakyCafes) {}) = [''A'']"
  using pretrim_keeps_one [where ms = 25000 and e = "termAt 230000 [''A'', ''B''] flakyCafes"
      and start = 0 and n = 3 and i = 0 and ls = "[''A'', ''B'']" and seen = "{}" and se = True]
  by (simp add: run_simps flakyCafes_def timeOk_def)

section \<open>Reconciliation of the lookups\<close>

lemma patchEmails_result:
  "\<forall>j \<in> set js. idx j < length rs \<Longrightarrow> distinct (map idx js) \<Longrightarrow> length vs = length js \<Longrightarrow>
   \<exists>rs'. patchEmails js vs rs f = Inr (rs', f + length (filter (\<lambda>v. v \<noteq> []) vs))
      \<and> length rs' = length rs
      \<and> (\<forall>m < length rs. rs' ! m =
            (case map_of (zip (map idx js) vs) m of
               None \<Rightarrow> rs ! m
             | Some v \<Rightarrow> if v = [] then rs ! m else (rs ! m)\<lparr>emails := v\<rparr>))"
proof (induction js arbitrary: vs rs f)
  case Nil
  then show ?case by simp
next
  case (Cons j js)
  then obtain v vs' where vs: "vs = v # vs'" by (cases vs) auto
  show ?case
  proof (cases "v = []")
    case True
    have notin: "idx j \<notin> set (map idx js)" using Cons.prems(2) by simp
    from Cons.IH [of rs vs' f] Cons.prems vs
    obtain rs' where r:
      "patchEmails js vs' rs f = Inr (rs', f + length (filter (\<lambda>v. v \<noteq> []) vs'))"
      "length rs' = length rs"
      "\<forall>m < length rs. rs' ! m =
            (case map_of (zip (map idx js) vs') m of
               None \<Rightarrow> rs ! m
             | Some v \<Rightarrow> if v = [] then rs ! m else (rs ! m)\<lparr>emails := v\<rparr>)"
      by auto
    have none: "map_of (zip (map idx js) vs') (idx j) = None"
      using notin Cons.prems(3) vs by simp
    show ?thesis
      using r True vs none by (intro exI [of _ rs']) simp
  next
    case False
    let ?rs1 = "rs[idx j := (rs ! idx j)\<lparr>emails := v\<rparr>]"
    have notin: "idx j \<notin> set (map idx js)" using Cons.prems(2) by simp
    have inr: "idx j < length rs" using Cons.prems(1) by simp
    from Cons.IH [of ?rs1 vs' "f + 1"] Cons.prems vs
    obtain rs' where r:
      "patchEmails js vs' ?rs1 (f + 1) = Inr (rs', f + 1 + length (filter (\<lambda>v. v \<noteq> []) vs'))"
      "length rs' = length rs"
      "\<forall>m < length rs. rs' ! m =
            (case map_of (zip (map idx js) vs') m of
               None \<Rightarrow> ?rs1 ! m
             | Some v \<Rightarrow> if v = [] then ?rs1 ! m else (?rs1 ! m)\<lparr>emails := v\<rparr>)"
      by auto
    have none: "map_of (zip (map idx js) vs') (idx j) = None"
      using notin Cons.prems(3) vs by simp
    have "\<forall>m < length rs. rs' ! m =
            (case map_of (zip (map idx (j # js)) vs) m of
               None \<Rightarrow> rs ! m
             | Some v \<Rightarrow> if v = [] then rs ! m else (rs ! m)\<lparr>emails := v\<rparr>)"
    proof (intro allI impI)
      fix m assume m: "m < length rs"
      show "rs' ! m =
            (case map_of (zip (map idx (j # js)) vs) m of
               None \<Rightarrow> rs ! m
             | Some v \<Rightarrow> if v = [] then rs ! m else (rs ! m)\<lparr>emails := v\<rparr>)"
      proof (cases "m = idx j")
        case True
        with r(3) m none False vs show ?thesis by simp
      next
        case neq: False
        then have "?rs1 ! m = rs ! m" by simp
        with r(3) m vs neq show ?thesis by (simp split: option.split)
      qed
    qed
    with r(1,2) False vs inr show ?thesis
      by (intro exI [of _ rs']) simp
  qed
qed

lemma filter_all_length: "length (filter P xs) = length xs \<longleftrightarrow> list_all P xs"
proof (induction xs)
  case Nil
  then show ?case by simp
next
  case (Cons x xs)
  have "length (filter P xs) \<le> length xs" by simp
  then have "length (filter P xs) \<noteq> Suc (length xs)" by linarith
  with Cons show ?case by auto
qed

lemma resolvedJobs_le: "resolvedJobs expiry jobs \<le> length jobs"
  by (simp add: resolvedJobs_def)

lemma raceSettled_all:
  "raceSettled expiry jobs =
     (if resolvedJobs expiry jobs = length jobs
      then Some (map (\<lambda>j. fulfilledValue (promise j)) jobs) else None)"
  by (simp add: raceSettled_def resolvedJobs_def filter_all_length)

lemma map_of_jobs:
  assumes "distinct (map idx js)" "j \<in> set js"
  shows "map_of (zip (map idx js) (map f js)) (idx j) = Some (f j)"
proof -
  have z: "zip (map idx js) (map f js) = map (\<lambda>j. (idx j, f j)) js"
    by (induction js) simp_all
  have "distinct (map fst (map (\<lambda>j. (idx j, f j)) js))"
    using assms(1) by (simp add: comp_def)
  moreover have "(idx j, f j) \<in> set (map (\<lambda>j. (idx j, f j)) js)"
    using assms(2) by auto
  ultimately show ?thesis unfolding z by (rule map_of_is_SomeI)
qed

lemma resolveEmails_all:
  assumes ok: "jobsOk s"
    and x: "expiry = clock s + emailTimeout (remaining start (clock s))"
    and full: "resolvedJobs expiry (emailJobs s) = length (emailJobs s)"
  shows "\<exists>rs'. resolveEmails start s =
            Inr (s\<lparr>results := rs'\<rparr>,
                 length (filter (\<lambda>j. fulfilledValue (promise j) \<noteq> []) (emailJobs s)))
     \<and> length rs' = length (results s)
     \<and> (\<forall>j \<in> set (emailJobs s).
           rs' ! idx j = (results s ! idx j)\<lparr>emails := fulfilledValue (promise j)\<rparr>)
     \<and> (\<forall>m < length (results s). m \<notin> idx ` set (emailJobs s) \<longrightarrow> rs' ! m = results s ! m)"
proof (cases "emailJobs s = []")
  case True
  then show ?thesis
    by (intro exI [of _ "results s"]) (simp add: resolveEmails_def)
next
  case False
  let ?js = "emailJobs s"
  let ?vs = "map (\<lambda>j. fulfilledValue (promise j)) ?js"
  let ?rs = "results s"
  have inr: "\<forall>j \<in> set ?js. idx j < length ?rs" and dist: "distinct (map idx ?js)"
    and dflt: "\<forall>j \<in> set ?js. emails (?rs ! idx j) = []"
    using ok by (auto simp: jobsOk_def)
  from patchEmails_result [OF inr dist, of ?vs 0]
  obtain rs' where r:
    "patchEmails ?js ?vs ?rs 0 = Inr (rs', 0 + length (filter (\<lambda>v. v \<noteq> []) ?vs))"
    "length rs' = length ?rs"
    "\<forall>m < length ?rs. rs' ! m =
        (case map_of (zip (map idx ?js) ?vs) m of
           None \<Rightarrow> ?rs ! m
         | Some v \<Rightarrow> if v = [] then ?rs ! m else (?rs ! m)\<lparr>emails := v\<rparr>)"
    by auto
  have cnt: "length (filter (\<lambda>v. v \<noteq> []) ?vs)
               = length (filter (\<lambda>j. fulfilledValue (promise j) \<noteq> []) ?js)"
    by (simp add: filter_map comp_def)
  have res: "resolveEmails start s =
      Inr (s\<lparr>results := rs'\<rparr>, length (filter (\<lambda>j. fulfilledValue (promise j) \<noteq> []) ?js))"
    using False full r(1) cnt x
    by (simp add: resolveEmails_def Let_def raceSettled_all)
  have jobs: "\<forall>j \<in> set ?js. rs' ! idx j = (?rs ! idx j)\<lparr>emails := fulfilledValue (promise j)\<rparr>"
  proof
    fix j assume j: "j \<in> set ?js"
    have m: "map_of (zip (map idx ?js) ?vs) (idx j) = Some (fulfilledValue (promise j))"
      using dist j by (rule map_of_jobs)
    have "emails (?rs ! idx j) = []" using dflt j by blast
    then have "(?rs ! idx j)\<lparr>emails := []\<rparr> = ?rs ! idx j" by simp
    moreover from r(3) inr j have "rs' ! idx j =
        (case map_of (zip (map idx ?js) ?vs) (idx j) of
           None \<Rightarrow> ?rs ! idx j
         | Some v \<Rightarrow> if v = [] then ?rs ! idx j else (?rs ! idx j)\<lparr>emails := v\<rparr>)"
      by blast
    ultimately show "rs' ! idx j = (?rs ! idx j)\<lparr>emails := fulfilledValue (promise j)\<rparr>"
      by (simp only: m option.case split: if_split) simp
  qed
  have others: "\<forall>m < length ?rs. m \<notin> idx ` set ?js \<longrightarrow> rs' ! m = ?rs ! m"
  proof (intro allI impI)
    fix m assume m: "m < length ?rs" "m \<notin> idx ` set ?js"
    then have none: "map_of (zip (map idx ?js) ?vs) m = None"
      by simp
    from r(3) m(1) have "rs' ! m =
        (case map_of (zip (map idx ?js) ?vs) m of
           None \<Rightarrow> ?rs ! m
         | Some v \<Rightarrow> if v = [] then ?rs ! m else (?rs ! m)\<lparr>emails := v\<rparr>)"
      by blast
    then show "rs' ! m = ?rs ! m" by (simp only: none option.case)
  qed
  from res r(2) jobs others show ?thesis by blast
qed

lemma resolveEmails_partial:
  assumes x: "expiry = clock s + emailTimeout (remaining start (clock s))"
    and part: "resolvedJobs expiry (emailJobs s) < length (emailJobs s)"
  shows "resolveEmails start s = Inr (s, 0)"
  using assms by (simp add: resolveEmails_def Let_def raceSettled_all)

lemma processTerm_total:
  "\<exists>s found. processTerm start se n i e seen = Inr (s, found)
      \<and> extractedUrls s = extractedUrls (extractTerm start se n i e seen)
      \<and> navigated s = navigated (extractTerm start se n i e seen)"
proof -
  let ?s = "extractTerm start se n i e seen"
  let ?x = "clock ?s + emailTimeout (remaining start (clock ?s))"
  have p: "processTerm start se n i e seen = resolveEmails start ?s"
    by (simp add: processTerm_def)
  show ?thesis
  proof (cases "resolvedJobs ?x (emailJobs ?s) = length (emailJobs ?s)")
    case True
    from resolveEmails_all [OF extractTerm_jobsOk refl True]
    obtain rs' f where "resolveEmails start ?s = Inr (?s\<lparr>results := rs'\<rparr>, f)" by blast
    with p show ?thesis by simp
  next
    case False
    with resolvedJobs_le [of ?x "emailJobs ?s"]
    have "resolvedJobs ?x (emailJobs ?s) < length (emailJobs ?s)" by linarith
    from resolveEmails_partial [OF refl this] p show ?thesis by simp
  qed
qed

text \<open>
  Claim C1, as amended. The reconciliation is all or nothing. Every job of the extraction
  loop points at its own record, whose \<open>emails\<close> is empty. When all \<open>K\<close> lookups
  resolve before the wait window expires, the record of every job gets the value of its
  lookup as \<open>emails\<close> (an empty value leaves the empty default), every other record is
  unchanged, and \<open>emailsFound\<close> counts the non-empty values. When fewer than \<open>K\<close>
  have resolved at expiry, \<open>settled\<close> is \<open>null\<close> and no record is patched: the state
  is the one the extraction loop left, also for the lookups that had resolved.
\<close>

theorem enrichment_all_or_nothing:
  assumes s: "s = extractTerm start scrapeEmails n i e seen"
    and x: "expiry = clock s + emailTimeout (remaining start (clock s))"
  shows "(\<forall>j \<in> set (emailJobs s). idx j < length (results s) \<and> emails (results s ! idx j) = [])
     \<and> distinct (map idx (emailJobs s))
     \<and> (resolvedJobs expiry (emailJobs s) = length (emailJobs s) \<longrightarrow>
          (\<exists>rs'. processTerm start scrapeEmails n i e seen =
                    Inr (s\<lparr>results := rs'\<rparr>,
                         length (filter (\<lambda>j. fulfilledValue (promise j) \<noteq> []) (emailJobs s)))
             \<and> length rs' = length (results s)
             \<and> (\<forall>j \<in> set (emailJobs s).
                   rs' ! idx j = (results s ! idx j)\<lparr>emails := fulfilledValue (promise j)\<rparr>)
             \<and> (\<forall>m < length (results s).
                   m \<notin> idx ` set (emailJobs s) \<longrightarrow> rs' ! m = results s ! m)))
     \<and> (resolvedJobs expiry (emailJobs s) < length (emailJobs s) \<longrightarrow>
          processTerm start scrapeEmails n i e seen = Inr (s, 0))"
proof -
  have ok: "jobsOk s" unfolding s by (rule extractTerm_jobsOk)
  have p: "processTerm start scrapeEmails n i e seen = resolveEmails start s"
    by (simp add: processTerm_def s)
  show ?thesis
    using ok resolveEmails_all [OF ok x] resolveEmails_partial [OF x]
    unfolding p jobsOk_def by blast
qed

text \<open>
  Two lookups: when both resolve in the window both records are patched; when the second
  resolves too late neither is.
\<close>

theorem enrichment_all_or_nothing_witness:
  "resolvedJobs 23000 (emailJobs (extractTerm 0 True 1 0
       (termAt 0 [''A'', ''B''] (cafes 4000 (SettlesAt 9000 [''info@a.org'']) (SettlesAt 12000 [''hi@b.org'']))) {})) = 2
   \<and> resultEmails (processTerm 0 True 1 0
       (termAt 0 [''A'', ''B''] (cafes 4000 (SettlesAt 9000 [''info@a.org'']) (SettlesAt 12000 [''hi@b.org'']))) {})
       = [[''info@a.org''], [''hi@b.org'']]
   \<and> resolvedJobs 23000 (emailJobs (extractTerm 0 True 1 0
       (termAt 0 [''A'', ''B''] (cafes 4000 (SettlesAt 9000 [''info@a.org'']) (SettlesAt 30000 [''hi@b.org'']))) {})) = 1
   \<and> resultEmails (processTerm 0 True 1 0
       (termAt 0 [''A'', ''B''] (cafes 4000 (SettlesAt 9000 [''info@a.org'']) (SettlesAt 30000 [''hi@b.org'']))) {})
       = [[], []]"
  using enrichment_all_or_nothing [OF refl refl, where start = 0 and scrapeEmails = True
      and n = 1 and i = 0 and seen = "{}"
      and e = "termAt 0 [''A'', ''B''] (cafes 4000 (SettlesAt 9000 [''info@a.org'']) (SettlesAt 12000 [''hi@b.org'']))"]
    enrichment_all_or_nothing [OF refl refl, where start = 0 and scrapeEmails = True
      and n = 1 and i = 0 and seen = "{}"
      and e = "termAt 0 [''A'', ''B''] (cafes 4000 (SettlesAt 9000 [''info@a.org'']) (SettlesAt 30000 [''hi@b.org'']))"]
  by (simp add: run_simps)

text \<open>
  "Exactly \<open>J\<close> records are patched" fails for \<open>J < K\<close>: of two lookups one resolves
  at 9000 ms with an address and the other only at 24000 ms; the window expires at
  23000 ms, one lookup has resolved, and both records keep their empty \<open>emails\<close>.
\<close>

theorem enrichment_partial_counterexample:
  "clock (extractTerm 0 True 1 0 (termAt 0 [''A'', ''B''] (cafes 4000 (SettlesAt 9000 [''info@a.org'']) (SettlesAt 24000 [''hi@b.org'']))) {})
     + emailTimeout (remaining 0 (clock (extractTerm 0 True 1 0 (termAt 0 [''A'', ''B''] (cafes 4000 (SettlesAt 9000 [''info@a.org'']) (SettlesAt 24000 [''hi@b.org'']))) {}))) = 23000
   \<and> length (emailJobs (extractTerm 0 True 1 0 (termAt 0 [''A'', ''B''] (cafes 4000 (SettlesAt 9000 [''info@a.org'']) (SettlesAt 24000 [''hi@b.org'']))) {})) = 2
   \<and> resolvedJobs 23000 (emailJobs (extractTerm 0 True 1 0 (termAt 0 [''A'', ''B''] (cafes 4000 (SettlesAt 9000 [''info@a.org'']) (SettlesAt 24000 [''hi@b.org'']))) {})) = 1
   \<and> resultEmails (processTerm 0 True 1 0 (termAt 0 [''A'', ''B''] (cafes 4000 (SettlesAt 9000 [''info@a.org'']) (SettlesAt 24000 [''hi@b.org'']))) {}) = [[], []]"
  by (simp add: run_simps)

section \<open>The dedup set\<close>

lemma termEntry_Cons: "termEntry start se n es t \<Longrightarrow> termEntry start se n (e # es) t"
  by (auto simp: termEntry_def)

lemma runTerms_log:
  "runTerms start se n i es st = Inr st' \<Longrightarrow>
   \<exists>new. termLog st' = termLog st @ new
     \<and> ledger st \<subseteq> ledger st'
     \<and> (\<forall>t \<in> set new. ledger st \<subseteq> seenBefore t \<and> seenAfter t \<subseteq> ledger st'
            \<and> termEntry start se n es t)
     \<and> sorted_wrt (\<lambda>a b. seenAfter a \<subseteq> seenBefore b) new"
proof (induction es arbitrary: i st)
  case Nil
  then show ?case by simp
next
  case (Cons e es)
  show ?case
  proof (cases "\<not> timeOk start (tHead e) 30000")
    case True
    with Cons.prems show ?thesis by simp
  next
    case ok: False
    show ?thesis
    proof (cases "termLinks e = []")
      case True
      with ok Cons.prems have "runTerms start se n (i + 1) es st = Inr st'" by simp
      from Cons.IH [OF this] obtain new where
        "termLog st' = termLog st @ new" "ledger st \<subseteq> ledger st'"
        "\<forall>t \<in> set new. ledger st \<subseteq> seenBefore t \<and> seenAfter t \<subseteq> ledger st'
            \<and> termEntry start se n es t"
        "sorted_wrt (\<lambda>a b. seenAfter a \<subseteq> seenBefore b) new"
        by blast
      then show ?thesis by (intro exI [of _ new]) (auto intro: termEntry_Cons)
    next
      case False
      let ?x = "extractTerm start se n i e (ledger st)"
      obtain s found where s: "processTerm start se n i e (ledger st) = Inr (s, found)"
        "extractedUrls s = extractedUrls ?x" "navigated s = navigated ?x"
        using processTerm_total by blast
      let ?t0 = "\<lparr>seenBefore = ledger st, visited = navigated s, seenAfter = extractedUrls s\<rparr>"
      let ?st1 = "st\<lparr>ledger := extractedUrls s, dataset := dataset st @ results s,
                     termLog := termLog st @ [?t0]\<rparr>"
      have run: "runTerms start se n (i + 1) es ?st1 = Inr st'"
        using Cons.prems ok False s(1) by simp
      from Cons.IH [OF run] obtain new where new:
        "termLog st' = termLog ?st1 @ new" "ledger ?st1 \<subseteq> ledger st'"
        "\<forall>t \<in> set new. ledger ?st1 \<subseteq> seenBefore t \<and> seenAfter t \<subseteq> ledger st'
            \<and> termEntry start se n es t"
        "sorted_wrt (\<lambda>a b. seenAfter a \<subseteq> seenBefore b) new"
        by blast
      have mono: "ledger st \<subseteq> extractedUrls s"
        unfolding s(2) using extractTerm_extractedUrls [of start se n i e "ledger st"] by blast
      have t0: "termEntry start se n (e # es) ?t0"
        unfolding termEntry_def using s(2,3) by auto
      have "termLog st' = termLog st @ (?t0 # new)" using new(1) by simp
      moreover have "ledger st \<subseteq> ledger st'" using mono new(2) by auto
      moreover have "\<forall>t \<in> set (?t0 # new). ledger st \<subseteq> seenBefore t \<and> seenAfter t \<subseteq> ledger st'
            \<and> termEntry start se n (e # es) t"
      proof
        fix t assume "t \<in> set (?t0 # new)"
        then consider "t = ?t0" | "t \<in> set new" by auto
        then show "ledger st \<subseteq> seenBefore t \<and> seenAfter t \<subseteq> ledger st'
            \<and> termEntry start se n (e # es) t"
        proof cases
          case 1
          with new(2) t0 show ?thesis by simp
        next
          case 2
          with new(3) have "extractedUrls s \<subseteq> seenBefore t" "seenAfter t \<subseteq> ledger st'"
            "termEntry start se n es t" by auto
          with mono show ?thesis by (blast intro: termEntry_Cons)
        qed
      qed
      moreover have "sorted_wrt (\<lambda>a b. seenAfter a \<subseteq> seenBefore b) (?t0 # new)"
        using new(3,4) by auto
      ultimately show ?thesis by blast
    qed
  qed
qed

lemma termEntry_facts:
  assumes "termEntry start se n es t"
  shows "\<exists>e \<in> set es. \<exists>k.
           visited t = navigated (extractTerm start se n k e (seenBefore t))
           \<and> set (visited t) \<subseteq> set (termLinks e)
           \<and> set (visited t) \<inter> seenBefore t = {}
           \<and> seenAfter t = seenBefore t \<union> {l \<in> set (visited t). succeeds (visits e l)}"
proof -
  from assms obtain e k where e: "e \<in> set es"
    "visited t = navigated (extractTerm start se n k e (seenBefore t))"
    "seenAfter t = extractedUrls (extractTerm start se n k e (seenBefore t))"
    by (auto simp: termEntry_def)
  have "set (visited t) \<subseteq> set (termLinks e) - seenBefore t"
    unfolding e(2) by (rule extractTerm_navigated_new)
  moreover have "seenAfter t = seenBefore t \<union> {l \<in> set (visited t). succeeds (visits e l)}"
    unfolding e(2,3) by (rule extractTerm_extractedUrls)
  ultimately show ?thesis using e(1,2) by blast
qed

text \<open>
  Claim C6. Within a term: the term ends with a superset of the dedup set it started
  with; the links of the set are filtered out of the candidates and are not navigated
  to; a link enters the set exactly when it was navigated to and its extraction
  succeeded; a link outside the set whose extraction fails (the navigation throws, or
  the page has no place name) stays outside and is among the new links of a term that
  collects it again; the reconciliation does not touch the set. Across the run: when
  the loop over the terms ends in the state \<open>st'\<close>, the set it started with is part
  of the final one, and every term it processed started from the set the run had
  reached (which contains the initial one), navigated to none of that set's links,
  added exactly the links it navigated to and extracted, and left a set that is part of
  the final one. Of two terms of the run, the later starts from a superset of the set
  the earlier left and navigates to none of the links the earlier had marked.
\<close>

theorem ledger_grows_marks_after_success:
  "seen \<subseteq> extractedUrls (extractTerm start se n i e seen)
   \<and> set (newLinks seen cands) \<inter> seen = {}
   \<and> set (navigated (extractTerm start se n i e seen)) \<inter> seen = {}
   \<and> extractedUrls (extractTerm start se n i e seen)
        = seen \<union> {l \<in> set (navigated (extractTerm start se n i e seen)). succeeds (visits e l)}
   \<and> (l \<notin> seen \<and> \<not> succeeds (visits e l) \<longrightarrow>
         l \<notin> extractedUrls (extractTerm start se n i e seen)
         \<and> (l \<in> set cands \<longrightarrow> l \<in> set (newLinks (extractedUrls (extractTerm start se n i e seen)) cands)))
   \<and> (\<exists>s found. processTerm start se n i e seen = Inr (s, found)
          \<and> extractedUrls s = extractedUrls (extractTerm start se n i e seen))
   \<and> (runTerms start se n i es st = Inr st' \<longrightarrow>
        ledger st \<subseteq> ledger st'
        \<and> (\<exists>new. termLog st' = termLog st @ new
              \<and> (\<forall>t \<in> set new.
                    ledger st \<subseteq> seenBefore t \<and> seenBefore t \<subseteq> seenAfter t
                    \<and> seenAfter t \<subseteq> ledger st'
                    \<and> set (visited t) \<inter> seenBefore t = {}
                    \<and> (\<exists>e' \<in> set es. \<exists>k.
                          visited t = navigated (extractTerm start se n k e' (seenBefore t))
                          \<and> set (visited t) \<subseteq> set (termLinks e')
                          \<and> seenAfter t = seenBefore t
                                \<union> {l \<in> set (visited t). succeeds (visits e' l)}))
              \<and> sorted_wrt (\<lambda>a b. seenAfter a \<subseteq> seenBefore b
                                \<and> set (visited b) \<inter> seenAfter a = {}) new))"
proof -
  let ?s = "extractTerm start se n i e seen"
  have eq: "extractedUrls ?s = seen \<union> {l \<in> set (navigated ?s). succeeds (visits e l)}"
    by (rule extractTerm_extractedUrls)
  have nav: "set (navigated ?s) \<inter> seen = {}"
    using extractTerm_navigated_new [of start se n i e seen] by blast
  have pt: "\<exists>s found. processTerm start se n i e seen = Inr (s, found)
          \<and> extractedUrls s = extractedUrls ?s"
    using processTerm_total [of start se n i e seen] by blast
  have nl: "set (newLinks seen cands) \<inter> seen = {}" by (auto simp: newLinks_def)
  have fl: "l \<notin> seen \<and> \<not> succeeds (visits e l) \<longrightarrow>
         l \<notin> extractedUrls ?s \<and> (l \<in> set cands \<longrightarrow> l \<in> set (newLinks (extractedUrls ?s) cands))"
    using eq by (auto simp: newLinks_def)
  have sub: "seen \<subseteq> extractedUrls ?s" using eq by blast
  have run: "ledger st \<subseteq> ledger st'
        \<and> (\<exists>new. termLog st' = termLog st @ new
              \<and> (\<forall>t \<in> set new.
                    ledger st \<subseteq> seenBefore t \<and> seenBefore t \<subseteq> seenAfter t
                    \<and> seenAfter t \<subseteq> ledger st'
                    \<and> set (visited t) \<inter> seenBefore t = {}
                    \<and> (\<exists>e' \<in> set es. \<exists>k.
                          visited t = navigated (extractTerm start se n k e' (seenBefore t))
                          \<and> set (visited t) \<subseteq> set (termLinks e')
                          \<and> seenAfter t = seenBefore t
                                \<union> {l \<in> set (visited t). succeeds (visits e' l)}))
              \<and> sorted_wrt (\<lambda>a b. seenAfter a \<subseteq> seenBefore b
                                \<and> set (visited b) \<inter> seenAfter a = {}) new)"
    if r: "runTerms start se n i es st = Inr st'"
  proof -
    from runTerms_log [OF r] obtain new where new:
      "termLog st' = termLog st @ new" "ledger st \<subseteq> ledger st'"
      "\<forall>t \<in> set new. ledger st \<subseteq> seenBefore t \<and> seenAfter t \<subseteq> ledger st'
            \<and> termEntry start se n es t"
      "sorted_wrt (\<lambda>a b. seenAfter a \<subseteq> seenBefore b) new"
      by blast
    have each: "\<forall>t \<in> set new.
                    ledger st \<subseteq> seenBefore t \<and> seenBefore t \<subseteq> seenAfter t
                    \<and> seenAfter t \<subseteq> ledger st'
                    \<and> set (visited t) \<inter> seenBefore t = {}
                    \<and> (\<exists>e' \<in> set es. \<exists>k.
                          visited t = navigated (extractTerm start se n k e' (seenBefore t))
                          \<and> set (visited t) \<subseteq> set (termLinks e')
                          \<and> seenAfter t = seenBefore t
                                \<union> {l \<in> set (visited t). succeeds (visits e' l)})"
    proof
      fix t assume t: "t \<in> set new"
      with new(3) have a: "ledger st \<subseteq> seenBefore t" "seenAfter t \<subseteq> ledger st'"
        "termEntry start se n es t" by auto
      from termEntry_facts [OF a(3)] obtain e' k where e': "e' \<in> set es"
        "visited t = navigated (extractTerm start se n k e' (seenBefore t))"
        "set (visited t) \<subseteq> set (termLinks e')"
        "set (visited t) \<inter> seenBefore t = {}"
        "seenAfter t = seenBefore t \<union> {l \<in> set (visited t). succeeds (visits e' l)}"
        by blast
      have "seenBefore t \<subseteq> seenAfter t" using e'(5) by blast
      with a(1,2) e' show "ledger st \<subseteq> seenBefore t \<and> seenBefore t \<subseteq> seenAfter t
                    \<and> seenAfter t \<subseteq> ledger st'
                    \<and> set (visited t) \<inter> seenBefore t = {}
                    \<and> (\<exists>e' \<in> set es. \<exists>k.
                          visited t = navigated (extractTerm start se n k e' (seenBefore t))
                          \<and> set (visited t) \<subseteq> set (termLinks e')
                          \<and> seenAfter t = seenBefore t
                                \<union> {l \<in> set (visited t). succeeds (visits e' l)})"
        by blast
    qed
    have "sorted_wrt (\<lambda>a b. seenAfter a \<subseteq> seenBefore b
                                \<and> set (visited b) \<inter> seenAfter a = {}) new"
    proof (rule sorted_wrt_mono_rel [OF _ new(4)])
      fix a b assume ab: "a \<in> set new" "b \<in> set new" "seenAfter a \<subseteq> seenBefore b"
      from each ab(2) have "set (visited b) \<inter> seenBefore b = {}" by blast
      with ab(3) show "seenAfter a \<subseteq> seenBefore b \<and> set (visited b) \<inter> seenAfter a = {}"
        by blast
    qed
    with new(1,2) each show ?thesis by blast
  qed
  from sub nl nav eq fl pt run show ?thesis by blast
qed

text \<open>
  A run of two terms that starts with \<open>Z\<close> in the set: in the first, \<open>Z\<close> is
  skipped, \<open>A\<close> fails and \<open>B\<close> succeeds; the second collects \<open>A\<close> and \<open>B\<close>
  again, skips \<open>B\<close> and extracts \<open>A\<close>.
\<close>

theorem ledger_grows_marks_after_success_witness:
  "''A'' \<notin> {''Z''} \<and> \<not> succeeds (visits (termAt 0 [''A'', ''B'', ''Z''] flakyCafes) ''A'')
   \<and> navigated (extractTerm 0 True 2 0 (termAt 0 [''A'', ''B'', ''Z''] flakyCafes) {''Z''}) = [''A'', ''B'']
   \<and> extractedUrls (extractTerm 0 True 2 0 (termAt 0 [''A'', ''B'', ''Z''] flakyCafes) {''Z''}) = {''B'', ''Z''}
   \<and> ''A'' \<in> set [''A'', ''B'']
   \<and> newLinks (extractedUrls (extractTerm 0 True 2 0 (termAt 0 [''A'', ''B'', ''Z''] flakyCafes) {''Z''})) [''A'', ''B''] = [''A'']
   \<and> \<not> isl (runTerms 0 True 2 0
        [termAt 0 [''A'', ''B'', ''Z''] flakyCafes, termAt 40000 [''A'', ''B''] (cafes 4000 Never Never)]
        \<lparr>ledger = {''Z''}, dataset = [], termLog = []\<rparr>)
   \<and> finalLedger (runTerms 0 True 2 0
        [termAt 0 [''A'', ''B'', ''Z''] flakyCafes, termAt 40000 [''A'', ''B''] (cafes 4000 Never Never)]
        \<lparr>ledger = {''Z''}, dataset = [], termLog = []\<rparr>) = Some {''A'', ''B'', ''Z''}
   \<and> finalLog (runTerms 0 True 2 0
        [termAt 0 [''A'', ''B'', ''Z''] flakyCafes, termAt 40000 [''A'', ''B''] (cafes 4000 Never Never)]
        \<lparr>ledger = {''Z''}, dataset = [], termLog = []\<rparr>)
       = [\<lparr>seenBefore = {''Z''}, visited = [''A'', ''B''], seenAfter = {''B'', ''Z''}\<rparr>,
          \<lparr>seenBefore = {''B'', ''Z''}, visited = [''A''], seenAfter = {''A'', ''B'', ''Z''}\<rparr>]"
  using ledger_grows_marks_after_success [where seen = "{''Z''}" and start = 0 and se = True
      and n = 2 and i = 0 and e = "termAt 0 [''A'', ''B'', ''Z''] flakyCafes" and l = "''A''"
      and cands = "[''A'', ''B'']"
      and es = "[termAt 0 [''A'', ''B'', ''Z''] flakyCafes, termAt 40000 [''A'', ''B''] (cafes 4000 Never Never)]"
      and st = "\<lparr>ledger = {''Z''}, dataset = [], termLog = []\<rparr>"
      and st' = "projr (runTerms 0 True 2 0
        [termAt 0 [''A'', ''B'', ''Z''] flakyCafes, termAt 40000 [''A'', ''B''] (cafes 4000 Never Never)]
        \<lparr>ledger = {''Z''}, dataset = [], termLog = []\<rparr>)"]
  by (simp add: run_simps flakyCafes_def succeeds_def finalLedger_def finalLog_def timeOk_def insert_commute)

section \<open>The pagination collector\<close>

lemma setAdd_distinct: "distinct s \<Longrightarrow> distinct (setAdd l s)"
  by (simp add: setAdd_def)

lemma setAdd_length: "length (setAdd l s) \<le> Suc (length s)"
  by (simp add: setAdd_def)

lemma setAdd_subset: "set s \<subseteq> set (setAdd l s)"
  by (auto simp: setAdd_def)

lemma harvest_distinct: "distinct s \<Longrightarrow> distinct (harvest N ls s)"
  by (induction ls arbitrary: s) (simp_all add: setAdd_distinct)

lemma harvest_length: "length s \<le> N \<Longrightarrow> length (harvest N ls s) \<le> N"
proof (induction ls arbitrary: s)
  case Nil
  then show ?case by simp
next
  case (Cons l ls)
  show ?case
  proof (cases "length s \<ge> N")
    case True
    with Cons.prems show ?thesis by simp
  next
    case False
    then have "length (setAdd l s) \<le> N" using setAdd_length [of l s] by linarith
    from Cons.IH [OF this] False show ?thesis by simp
  qed
qed

lemma harvest_subset: "set s \<subseteq> set (harvest N ls s)"
proof (induction ls arbitrary: s)
  case Nil
  then show ?case by simp
next
  case (Cons l ls)
  from Cons.IH [of "setAdd l s"] setAdd_subset [of s l] show ?case by auto
qed

lemma roundBody_placeLinks:
  "placeLinks (snd (roundBody N ob c)) = harvest N (links ob) (placeLinks c)"
  by (simp add: roundBody_def Let_def)

lemma roundBody_continue:
  "roundBody N ob c = (False, c') \<Longrightarrow> scrollAttempts c' = Suc (scrollAttempts c)"
  by (auto simp: roundBody_def Let_def split: if_splits)

lemma roundBody_linksOk: "linksOk N c \<Longrightarrow> linksOk N (snd (roundBody N ob c))"
  by (simp add: linksOk_def roundBody_placeLinks harvest_distinct harvest_length)

lemma roundBody_grows: "grows c (snd (roundBody N ob c))"
  by (simp add: grows_def roundBody_placeLinks harvest_subset)

declare scrollLoop.simps [simp del]

lemma scrollLoop_stop: "\<not> enters start N page c \<Longrightarrow> scrollLoop start N page c = []"
  unfolding enters_def by (subst scrollLoop.simps) (rule if_not_P)

lemma scrollLoop_break:
  "enters start N page c \<Longrightarrow> roundBody N (page (scrollAttempts c)) c = (True, c') \<Longrightarrow>
   scrollLoop start N page c = [c']"
  unfolding enters_def by (subst scrollLoop.simps) simp

lemma scrollLoop_continue:
  "enters start N page c \<Longrightarrow> roundBody N (page (scrollAttempts c)) c = (False, c') \<Longrightarrow>
   scrollLoop start N page c = c' # scrollLoop start N page c'"
  unfolding enters_def by (subst scrollLoop.simps) simp

lemma scrollLoop_induct [case_names stop break continue]:
  assumes "\<And>start N page c. \<not> enters start N page c \<Longrightarrow> P start N page c"
    and "\<And>start N page c c'. enters start N page c \<Longrightarrow>
           roundBody N (page (scrollAttempts c)) c = (True, c') \<Longrightarrow> P start N page c"
    and "\<And>start N page c c'. enters start N page c \<Longrightarrow>
           roundBody N (page (scrollAttempts c)) c = (False, c') \<Longrightarrow> P start N page c' \<Longrightarrow>
           P start N page c"
  shows "P start N page c"
proof (induction start N page c rule: scrollLoop.induct)
  case (1 start N page c)
  obtain brk c' where rb: "roundBody N (page (scrollAttempts c)) c = (brk, c')"
    by (cases "roundBody N (page (scrollAttempts c)) c")
  show ?case
  proof (cases "enters start N page c")
    case False
    then show ?thesis by (rule assms(1))
  next
    case True
    show ?thesis
    proof (cases brk)
      case True
      with \<open>enters start N page c\<close> rb show ?thesis by (auto intro: assms(2))
    next
      case False
      have "P start N page c'"
        using "1.IH" True False rb by (auto simp: enters_def)
      with True False rb show ?thesis by (auto intro: assms(3))
    qed
  qed
qed

lemma scrollLoop_linksOk:
  "linksOk N c \<Longrightarrow> list_all (linksOk N) (scrollLoop start N page c)"
proof (induction start N page c rule: scrollLoop_induct)
  case (stop start N page c)
  then show ?case by (simp add: scrollLoop_stop)
next
  case (break start N page c c')
  then show ?case using roundBody_linksOk [of N c "page (scrollAttempts c)"]
    by (simp add: scrollLoop_break)
next
  case (continue start N page c c')
  then show ?case using roundBody_linksOk [of N c "page (scrollAttempts c)"]
    by (simp add: scrollLoop_continue)
qed

lemma grows_trans: "grows a b \<Longrightarrow> grows b c \<Longrightarrow> grows a c"
  by (auto simp: grows_def)

lemma scrollLoop_grows:
  "sorted_wrt grows (c # scrollLoop start N page c)"
proof (induction start N page c rule: scrollLoop_induct)
  case (stop start N page c)
  then show ?case by (simp add: scrollLoop_stop)
next
  case (break start N page c c')
  then show ?case using roundBody_grows [of c N "page (scrollAttempts c)"]
    by (simp add: scrollLoop_break)
next
  case (continue start N page c c')
  have g: "grows c c'" using roundBody_grows [of c N "page (scrollAttempts c)"] continue(2) by simp
  with continue(3) have "\<forall>x \<in> set (c' # scrollLoop start N page c'). grows c x"
    by (auto intro: grows_trans)
  with continue show ?case by (simp add: scrollLoop_continue)
qed

lemma end_marker_stops:
  "j < length (scrollLoop start N page c) \<Longrightarrow> 3 \<le> scrollAttempts c + j \<Longrightarrow>
   endReached (page (scrollAttempts c + j)) \<Longrightarrow>
   length (scrollLoop start N page c) = Suc j
   \<and> scrollAttempts (scrollLoop start N page c ! j) = scrollAttempts c + j
   \<and> actions (scrollLoop start N page c ! j) = actions ((c # scrollLoop start N page c) ! j)"
proof (induction start N page c arbitrary: j rule: scrollLoop_induct)
  case (stop start N page c)
  then show ?case by (simp add: scrollLoop_stop)
next
  case (break start N page c c')
  then have j: "j = 0" by (simp add: scrollLoop_break)
  with break show ?case
    by (auto simp: scrollLoop_break roundBody_def Let_def split: if_splits)
next
  case (continue start N page c c')
  have sa: "scrollAttempts c' = Suc (scrollAttempts c)"
    using continue(2) by (rule roundBody_continue)
  show ?case
  proof (cases j)
    case 0
    with continue(2,5,6) show ?thesis
      by (auto simp: roundBody_def Let_def split: if_splits)
  next
    case (Suc j')
    with continue(1,2,4-6) sa have
      "j' < length (scrollLoop start N page c')" "3 \<le> scrollAttempts c' + j'"
      "endReached (page (scrollAttempts c' + j'))"
      by (simp_all add: scrollLoop_continue)
    from continue(3) [OF this] continue(1,2) Suc sa show ?thesis
      by (simp add: scrollLoop_continue)
  qed
qed

text \<open>
  Claim C4. For every target count \<open>N\<close> and every page, the list
  \<open>scrollAndCollect\<close> returns has at most \<open>N\<close> links and no duplicates; the same
  holds for the running set at the end of every round, and the running sets of the
  rounds form an ascending chain.
\<close>

theorem collector_output_bound:
  "length (scrollAndCollect start page N) \<le> N
   \<and> distinct (scrollAndCollect start page N)
   \<and> list_all (\<lambda>c. length (placeLinks c) \<le> N \<and> distinct (placeLinks c))
        (scrollLoop start N page collector0)
   \<and> sorted_wrt (\<lambda>a b. set (placeLinks a) \<subseteq> set (placeLinks b))
        (collector0 # scrollLoop start N page collector0)"
proof -
  let ?tr = "scrollLoop start N page collector0"
  have ok0: "linksOk N collector0" by (simp add: linksOk_def collector0_def)
  have all: "list_all (linksOk N) ?tr" using ok0 by (rule scrollLoop_linksOk)
  have "?tr \<noteq> [] \<Longrightarrow> linksOk N (last ?tr)"
    using all by (simp add: list_all_iff)
  then have out: "length (scrollAndCollect start page N) \<le> N \<and> distinct (scrollAndCollect start page N)"
    by (cases ?tr) (auto simp: scrollAndCollect_def linksOk_def)
  have "list_all (\<lambda>c. length (placeLinks c) \<le> N \<and> distinct (placeLinks c)) ?tr"
    using all by (simp add: list_all_iff linksOk_def)
  moreover have "sorted_wrt (\<lambda>a b. set (placeLinks a) \<subseteq> set (placeLinks b)) (collector0 # ?tr)"
    using scrollLoop_grows [of collector0 start N page] by (simp add: grows_def [abs_def])
  ultimately show ?thesis using out by blast
qed

text \<open>
  A page that offers more links than the target of 4.
\<close>

theorem collector_output_bound_witness:
  "scrollAndCollect 0 (growingPage 5) 4 = [''p'', ''pp'', ''ppp'', ''pppp'']
   \<and> map placeLinks (scrollLoop 0 4 (growingPage 5) collector0)
       = [[''p''], [''p'', ''pp''], [''p'', ''pp'', ''ppp''], [''p'', ''pp'', ''ppp'', ''pppp'']]"
  using collector_output_bound [of 0 "growingPage 5" 4]
  by (simp add: collect_simps)

lemma roundBody_early_marker:
  "scrollAttempts c < 3 \<Longrightarrow> roundBody N (ob\<lparr>endReached := b\<rparr>) c = roundBody N ob c"
  by (simp add: roundBody_def Let_def)

lemma enters_early:
  "enters start N (\<lambda>k. if k < 3 then (page k)\<lparr>endReached := f k\<rparr> else page k) c
     = enters start N page c"
  by (simp add: enters_def)

lemma roundBody_early_page:
  "roundBody N ((\<lambda>k. if k < 3 then (page k)\<lparr>endReached := f k\<rparr> else page k) (scrollAttempts c)) c
     = roundBody N (page (scrollAttempts c)) c"
  by (simp add: roundBody_early_marker)

lemma scrollLoop_early_marker:
  "scrollLoop start N (\<lambda>k. if k < 3 then (page k)\<lparr>endReached := f k\<rparr> else page k) c
     = scrollLoop start N page c"
proof (induction start N page c rule: scrollLoop_induct)
  case (stop start N page c)
  then have "\<not> enters start N (\<lambda>k. if k < 3 then (page k)\<lparr>endReached := f k\<rparr> else page k) c"
    by (simp add: enters_early)
  then show ?case using stop by (simp add: scrollLoop_stop)
next
  case (break start N page c c')
  let ?p = "\<lambda>k. if k < 3 then (page k)\<lparr>endReached := f k\<rparr> else page k"
  have e: "enters start N ?p c" using break(1) by (simp add: enters_early)
  have r: "roundBody N (?p (scrollAttempts c)) c = (True, c')"
    using break(2) by (simp add: roundBody_early_page)
  show ?case
    using scrollLoop_break [OF e r] scrollLoop_break [OF break(1,2)] by simp
next
  case (continue start N page c c')
  let ?p = "\<lambda>k. if k < 3 then (page k)\<lparr>endReached := f k\<rparr> else page k"
  have e: "enters start N ?p c" using continue(1) by (simp add: enters_early)
  have r: "roundBody N (?p (scrollAttempts c)) c = (False, c')"
    using continue(2) by (simp add: roundBody_early_page)
  show ?case
    using scrollLoop_continue [OF e r] scrollLoop_continue [OF continue(1,2)] continue(3) by simp
qed

text \<open>
  Claim C5, as amended. The end-of-list marker is consulted from the fourth round on
  (\<open>scrollAttempts >= 3\<close>). In a round with \<open>scrollAttempts < 3\<close> the marker has no
  effect: the round does the same whatever the probe would return, and the whole run of
  the collector, its trace and its result, is the same whatever the marker is in rounds
  0, 1 and 2. If round \<open>k\<close> with \<open>k \<ge> 3\<close> is entered and the marker is present in
  it, the collector terminates in round \<open>k\<close>: the trace has \<open>k + 1\<close> rounds, round
  \<open>k\<close> performs no scroll or recovery action and does not count as a scroll attempt,
  and the result is the running set of round \<open>k\<close>, however far below the target it
  is.
\<close>

theorem end_marker_terminates:
  "(scrollAttempts c < 3 \<longrightarrow> roundBody N (ob\<lparr>endReached := b\<rparr>) c = roundBody N ob c)
   \<and> scrollLoop start N (\<lambda>j. if j < 3 then (page j)\<lparr>endReached := f j\<rparr> else page j) collector0
       = scrollLoop start N page collector0
   \<and> scrollAndCollect start (\<lambda>j. if j < 3 then (page j)\<lparr>endReached := f j\<rparr> else page j) N
       = scrollAndCollect start page N
   \<and> (k < length (scrollLoop start N page collector0) \<and> endReached (page k) \<and> 3 \<le> k \<longrightarrow>
        length (scrollLoop start N page collector0) = k + 1
        \<and> scrollAttempts (scrollLoop start N page collector0 ! k) = k
        \<and> actions (scrollLoop start N page collector0 ! k)
            = actions (scrollLoop start N page collector0 ! (k - 1))
        \<and> scrollAndCollect start page N = placeLinks (scrollLoop start N page collector0 ! k))"
proof (intro conjI impI)
  assume "scrollAttempts c < 3"
  then show "roundBody N (ob\<lparr>endReached := b\<rparr>) c = roundBody N ob c"
    by (rule roundBody_early_marker)
next
  show "scrollLoop start N (\<lambda>j. if j < 3 then (page j)\<lparr>endReached := f j\<rparr> else page j) collector0
       = scrollLoop start N page collector0"
    by (rule scrollLoop_early_marker)
  then show "scrollAndCollect start (\<lambda>j. if j < 3 then (page j)\<lparr>endReached := f j\<rparr> else page j) N
       = scrollAndCollect start page N"
    by (simp only: scrollAndCollect_def)
next
  let ?tr = "scrollLoop start N page collector0"
  assume h: "k < length ?tr \<and> endReached (page k) \<and> 3 \<le> k"
  have z: "scrollAttempts collector0 = 0" by (simp add: collector0_def)
  from end_marker_stops [of k start N page collector0] h z
  have r: "length ?tr = Suc k" "scrollAttempts (?tr ! k) = k"
    "actions (?tr ! k) = actions ((collector0 # ?tr) ! k)"
    by simp_all
  from h have "(collector0 # ?tr) ! k = ?tr ! (k - 1)" by (cases k) simp_all
  with r(3) have a: "actions (?tr ! k) = actions (?tr ! (k - 1))" by simp
  have ne: "?tr \<noteq> []" using r(1) by auto
  then have "last ?tr = ?tr ! k" using r(1) by (simp add: last_conv_nth)
  then have sc: "scrollAndCollect start page N = placeLinks (?tr ! k)"
    using ne by (cases ?tr) (simp_all add: scrollAndCollect_def)
  show "length ?tr = k + 1" using r(1) by simp
  show "scrollAttempts (?tr ! k) = k" by (rule r(2))
  show "actions (?tr ! k) = actions (?tr ! (k - 1))" by (rule a)
  show "scrollAndCollect start page N = placeLinks (?tr ! k)" by (rule sc)
qed

text \<open>
  A marker in round 2 changes nothing and the round goes on to scroll; a marker that
  appears in round 5, with 6 of 10 links collected, ends the collection there.
\<close>

theorem end_marker_terminates_witness:
  "scrollAttempts (collector0\<lparr>scrollAttempts := 2\<rparr>) < 3
   \<and> roundBody 10 ((growingPage 5 2)\<lparr>endReached := True\<rparr>) (collector0\<lparr>scrollAttempts := 2\<rparr>)
       = roundBody 10 (growingPage 5 2) (collector0\<lparr>scrollAttempts := 2\<rparr>)
   \<and> fst (roundBody 10 ((growingPage 5 2)\<lparr>endReached := True\<rparr>) (collector0\<lparr>scrollAttempts := 2\<rparr>)) = False
   \<and> (5::nat) < length (scrollLoop 0 10 (growingPage 5) collector0)
   \<and> endReached (growingPage 5 5) \<and> (3::nat) \<le> 5
   \<and> length (scrollLoop 0 10 (growingPage 5) collector0) = 6
   \<and> scrollAndCollect 0 (growingPage 5) 10 = [''p'', ''pp'', ''ppp'', ''pppp'', ''ppppp'', ''pppppp'']"
  using end_marker_terminates [where c = "collector0\<lparr>scrollAttempts := 2\<rparr>" and N = 10
      and ob = "growingPage 5 2" and b = True and k = 5 and start = 0 and page = "growingPage 5"]
  by (simp add: collect_simps)

text \<open>
  A marker in one of the first three rounds does not stop the collector: with the
  marker present from round 0 on, rounds 1, 2 and 3 still run, and three scrolls are
  performed before the marker is honoured in round 3.
\<close>

theorem end_marker_early_counterexample:
  "endReached (growingPage 0 0)
   \<and> length (scrollLoop 0 10 (growingPage 0) collector0) = 4
   \<and> map actions (scrollLoop 0 10 (growingPage 0) collector0)
       = [[NormalScroll], [NormalScroll, NormalScroll], [NormalScroll, NormalScroll, NormalScroll],
          [NormalScroll, NormalScroll, NormalScroll]]"
  by (simp add: collect_simps)

section \<open>Launching the browser\<close>






end
